theory Spec2Isabelle
  imports Complex_Main "HOL-Library.Product_Lexorder"
begin

section \<open>Data model\<close>

text \<open>
  Coordinates are Python floats; they are modelled as real numbers, so that rounding error
  of the floating-point representation is outside the model. A bounding box is the
  4-tuple \<open>(x0, top, x1, bottom)\<close>.
\<close>

type_synonym bbox = "real \<times> real \<times> real \<times> real"

datatype error = IndexError | PdfError

text \<open>
  A word of \<open>extract_words\<close>, with the extra attributes \<open>fontname\<close> and \<open>size\<close>.
  The fields carry the prefix \<open>w_\<close> because \<open>text\<close>, \<open>top\<close> and \<open>size\<close> are
  taken in HOL and the other records have the same keys.
\<close>

record word =
  w_text :: string
  w_x0 :: real
  w_x1 :: real
  w_top :: real
  w_bottom :: real
  w_fontname :: string
  w_size :: real

text \<open>A row of \<open>lines_df\<close>, in the column order of the aggregation.\<close>

record line =
  l_text :: string
  l_fontname :: string
  l_size :: real
  l_x0 :: real
  l_top :: real
  l_x1 :: real
  l_bottom :: real

text \<open>
  An entry of \<open>page.images\<close>. The coordinates are read with \<open>img[...]\<close>, the other
  keys with \<open>img.get\<close>, which gives \<open>None\<close> for a missing key.
\<close>

record image =
  img_x0 :: real
  img_top :: real
  img_x1 :: real
  img_bottom :: real
  img_width :: "real option"
  img_height :: "real option"
  img_name :: "string option"
  img_srcsize :: "(real \<times> real) option"

text \<open>
  The result of \<open>page.crop(bbox)\<close>: the words \<open>extract_words\<close> returns for it and its
  vector primitives, of which the program reads only the number (each is represented
  by its bounding box).
\<close>

record cropped_page =
  extract_words :: "word list"
  lines :: "bbox list"
  rects :: "bbox list"
  curves :: "bbox list"

text \<open>
  A page of the PDF library. \<open>crop\<close> belongs to the library, not to this program, so it
  is a field of the page: any function from a box to a cropped page or an error.
\<close>

record page =
  width :: real
  height :: real
  images :: "image list"
  crop :: "bbox \<Rightarrow> error + cropped_page"

text \<open>\<open>pdfplumber.open\<close>: a path either fails to open or gives the pages of the document.\<close>

type_synonym pdfplumber = "string \<Rightarrow> error + page list"

text \<open>
  \<open>pdf.pages[page_number]\<close> on a list of \<open>n\<close> pages: the indices \<open>0 .. n - 1\<close> read from
  the front, \<open>-n .. -1\<close> from the back, and every other index raises \<open>IndexError\<close>.
\<close>

definition getitem :: "'a list \<Rightarrow> int \<Rightarrow> error + 'a" where
  "getitem xs i =
     (if 0 \<le> i \<and> i < int (length xs) then Inr (xs ! nat i)
      else if i < 0 \<and> - int (length xs) \<le> i then Inr (xs ! nat (int (length xs) + i))
      else Inl IndexError)"

section \<open>Clamping a box to the page\<close>

text \<open>
  The source rebinds \<open>x0\<close>, \<open>x1\<close>, \<open>top\<close> and \<open>bottom\<close>; here every binding has its own
  name (\<open>cx0\<close> is the clamped \<open>x0\<close>), and \<open>top\<close>, \<open>bottom\<close> are written \<open>tp\<close>, \<open>bt\<close>.
  Unpacking a 4-tuple, \<open>min\<close>, \<open>max\<close> and \<open><\<close> on numbers do not raise, so the function
  has no error branch.
\<close>

definition clamp_bbox_to_page :: "bbox \<Rightarrow> page \<Rightarrow> bbox" where
  "clamp_bbox_to_page bbox page =
     (case bbox of (x0, tp, x1, bt) \<Rightarrow>
        let cx0 = max 0 (min x0 (width page));
            cx1 = max 0 (min x1 (width page));
            ctp = max 0 (min tp (height page));
            cbt = max 0 (min bt (height page))
        in (if cx1 < cx0 then cx1 else cx0,
            if cbt < ctp then cbt else ctp,
            if cx1 < cx0 then cx0 else cx1,
            if cbt < ctp then ctp else cbt))"

section \<open>Overlap of two boxes\<close>

text \<open>
  The source's \<open>at\<close>, \<open>ab\<close>, \<open>bt\<close>, \<open>bb\<close> are written \<open>atp\<close>, \<open>abt\<close>, \<open>btp\<close>, \<open>bbt\<close>
  (\<open>at\<close> is taken in HOL).
\<close>

definition bbox_overlap :: "bbox \<Rightarrow> bbox \<Rightarrow> bool" where
  "bbox_overlap a b =
     (case a of (ax0, atp, ax1, abt) \<Rightarrow>
      case b of (bx0, btp, bx1, bbt) \<Rightarrow>
        let inter_w = max 0 (min ax1 bx1 - max ax0 bx0);
            inter_h = max 0 (min abt bbt - max atp btp)
        in inter_w > 0 \<and> inter_h > 0)"

section \<open>Line reconstruction\<close>

text \<open>
  \<open>wdf["top"].round(0)\<close> is numpy's rounding to the nearest integer, a tie going to the
  even neighbour. The column keeps its float type, so the key is a real number.
\<close>

definition round_half_even :: "real \<Rightarrow> real" where
  "round_half_even x =
     (let f = \<lfloor>x\<rfloor>; d = x - of_int f
      in if d < 1 / 2 then of_int f
         else if 1 / 2 < d then of_int (f + 1)
         else if even f then of_int f else of_int (f + 1))"

definition line_id :: "word \<Rightarrow> real" where
  "line_id w = round_half_even (w_top w)"

text \<open>
  \<open>wdf.sort_values(["line_id", "x0"])\<close>: the rows in ascending lexicographic order of the
  two columns. With more than one column pandas sorts stably, as \<open>sort_key\<close> does.
\<close>

definition sort_values_line_id_x0 :: "word list \<Rightarrow> word list" where
  "sort_values_line_id_x0 wdf = sort_key (\<lambda>w. (line_id w, w_x0 w)) wdf"

text \<open>
  \<open>.groupby("line_id")\<close>: one group for each key, in ascending order of the keys; the
  rows of a group keep the order they have in the frame.
\<close>

definition groupby_line_id :: "word list \<Rightarrow> (real \<times> word list) list" where
  "groupby_line_id wdf =
     map (\<lambda>k. (k, filter (\<lambda>w. line_id w = k) wdf)) (sort (remdups (map line_id wdf)))"

text \<open>\<open>" ".join(x)\<close>\<close>

fun join :: "string \<Rightarrow> string list \<Rightarrow> string" where
  "join sep [] = []"
| "join sep [x] = x"
| "join sep (x # y # ys) = x @ sep @ join sep (y # ys)"

text \<open>
  \<open>Counter(x)\<close> is a dict: the keys in the order of their first insertion, each with the
  number of its occurrences.
\<close>

fun counter_add :: "'a \<Rightarrow> ('a \<times> nat) list \<Rightarrow> ('a \<times> nat) list" where
  "counter_add x [] = [(x, 1)]"
| "counter_add x ((k, c) # kcs) =
     (if k = x then (k, c + 1) # kcs else (k, c) # counter_add x kcs)"

definition Counter :: "'a list \<Rightarrow> ('a \<times> nat) list" where
  "Counter xs = foldl (\<lambda>cs x. counter_add x cs) [] xs"

text \<open>
  \<open>most_common(1)\<close> is \<open>max(items, key=count)\<close>: it goes through the items in order and
  replaces the best one only by an item with a strictly greater count. On an empty
  counter it is the empty list, and \<open>[0]\<close> raises.
\<close>

fun max_by_count :: "('a \<times> nat) \<Rightarrow> ('a \<times> nat) list \<Rightarrow> ('a \<times> nat)" where
  "max_by_count best [] = best"
| "max_by_count best (kc # kcs) = max_by_count (if snd best < snd kc then kc else best) kcs"

definition most_common_1 :: "'a list \<Rightarrow> error + 'a" where
  "most_common_1 xs =
     (case Counter xs of
        [] \<Rightarrow> Inl IndexError
      | kc # kcs \<Rightarrow> Inr (fst (max_by_count kc kcs)))"

text \<open>The aggregation of one group, \<open>.agg({...})\<close>.\<close>

definition agg :: "word list \<Rightarrow> error + line" where
  "agg x =
     (case most_common_1 (map w_fontname x) of
        Inl e \<Rightarrow> Inl e
      | Inr fn \<Rightarrow>
     (case most_common_1 (map w_size x) of
        Inl e \<Rightarrow> Inl e
      | Inr sz \<Rightarrow>
          Inr \<lparr>l_text = join '' '' (map w_text x),
               l_fontname = fn,
               l_size = sz,
               l_x0 = Min (set (map w_x0 x)),
               l_top = Min (set (map w_top x)),
               l_x1 = Max (set (map w_x1 x)),
               l_bottom = Max (set (map w_bottom x))\<rparr>))"

text \<open>The rows of all groups, or the first error.\<close>

fun collect :: "(error + 'a) list \<Rightarrow> error + 'a list" where
  "collect [] = Inr []"
| "collect (Inl e # rs) = Inl e"
| "collect (Inr a # rs) = (case collect rs of Inl e \<Rightarrow> Inl e | Inr as \<Rightarrow> Inr (a # as))"

text \<open>
  The frame \<open>lines_df\<close>: sort, group, aggregate, drop the keys, sort by \<open>top\<close>.
\<close>

definition lines_df :: "word list \<Rightarrow> error + line list" where
  "lines_df wdf =
     (case collect (map (\<lambda>(k, x). agg x) (groupby_line_id (sort_values_line_id_x0 wdf))) of
        Inl e \<Rightarrow> Inl e
      | Inr rows \<Rightarrow> Inr (sort_key l_top rows))"

record text_part =
  tp_page_number :: int
  tp_bbox :: bbox
  tp_lines :: "line list"
  tp_message :: "string option"

definition extract_bbox_text_metadata ::
  "pdfplumber \<Rightarrow> string \<Rightarrow> int \<Rightarrow> bbox \<Rightarrow> error + text_part" where
  "extract_bbox_text_metadata pdf_open pdf_path page_number bbox =
     (case pdf_open pdf_path of
        Inl e \<Rightarrow> Inl e
      | Inr pages \<Rightarrow>
     (case getitem pages page_number of
        Inl e \<Rightarrow> Inl e
      | Inr page \<Rightarrow>
     (let cbbox = clamp_bbox_to_page bbox page in
      case crop page cbbox of
        Inl e \<Rightarrow> Inl e
      | Inr cropped \<Rightarrow>
     (let words = extract_words cropped in
      if words = [] then
        Inr \<lparr>tp_page_number = page_number, tp_bbox = cbbox, tp_lines = [],
             tp_message = Some ''No text found inside bbox''\<rparr>
      else
        case lines_df words of
          Inl e \<Rightarrow> Inl e
        | Inr rows \<Rightarrow>
            Inr \<lparr>tp_page_number = page_number, tp_bbox = cbbox, tp_lines = rows,
                 tp_message = None\<rparr>))))"

section \<open>Images that overlap the box\<close>

record image_entry =
  image_id :: nat
  image_bbox :: bbox
  ie_width :: "real option"
  ie_height :: "real option"
  ie_name :: "string option"
  ie_srcsize :: "(real \<times> real) option"

record image_part =
  ip_page_number :: int
  ip_bbox :: bbox
  ip_image_count :: nat
  ip_images :: "image_entry list"

text \<open>The loop over \<open>enumerate(page.images)\<close>, with the list \<open>results\<close> it appends to.\<close>

fun image_loop :: "bbox \<Rightarrow> (nat \<times> image) list \<Rightarrow> image_entry list \<Rightarrow> image_entry list" where
  "image_loop bbox [] results = results"
| "image_loop bbox ((i, img) # rest) results =
     (let img_bbox = (img_x0 img, img_top img, img_x1 img, img_bottom img)
      in image_loop bbox rest
           (if bbox_overlap bbox img_bbox
            then results @ [\<lparr>image_id = i, image_bbox = img_bbox,
                             ie_width = img_width img, ie_height = img_height img,
                             ie_name = img_name img, ie_srcsize = img_srcsize img\<rparr>]
            else results))"

definition extract_bbox_image_metadata ::
  "pdfplumber \<Rightarrow> string \<Rightarrow> int \<Rightarrow> bbox \<Rightarrow> error + image_part" where
  "extract_bbox_image_metadata pdf_open pdf_path page_number bbox =
     (case pdf_open pdf_path of
        Inl e \<Rightarrow> Inl e
      | Inr pages \<Rightarrow>
     (case getitem pages page_number of
        Inl e \<Rightarrow> Inl e
      | Inr page \<Rightarrow>
     (let cbbox = clamp_bbox_to_page bbox page;
          results = image_loop cbbox (enumerate 0 (images page)) []
      in Inr \<lparr>ip_page_number = page_number, ip_bbox = cbbox,
              ip_image_count = length results, ip_images = results\<rparr>)))"

section \<open>The table signal\<close>

record table_signal =
  ts_page_number :: int
  ts_bbox :: bbox
  lines_count :: nat
  rects_count :: nat
  curves_count :: nat
  likely_table :: bool

definition extract_bbox_table_signal ::
  "pdfplumber \<Rightarrow> string \<Rightarrow> int \<Rightarrow> bbox \<Rightarrow> error + table_signal" where
  "extract_bbox_table_signal pdf_open pdf_path page_number bbox =
     (case pdf_open pdf_path of
        Inl e \<Rightarrow> Inl e
      | Inr pages \<Rightarrow>
     (case getitem pages page_number of
        Inl e \<Rightarrow> Inl e
      | Inr page \<Rightarrow>
     (let cbbox = clamp_bbox_to_page bbox page in
      case crop page cbbox of
        Inl e \<Rightarrow> Inl e
      | Inr cropped \<Rightarrow>
          Inr \<lparr>ts_page_number = page_number, ts_bbox = cbbox,
               lines_count = length (lines cropped),
               rects_count = length (rects cropped),
               curves_count = length (curves cropped),
               likely_table = (length (lines cropped) + length (rects cropped) > 15)\<rparr>)))"

section \<open>The report\<close>

record report =
  r_pdf_path :: string
  r_page_number :: int
  r_bbox :: bbox
  r_text :: "line list"
  r_text_line_count :: nat
  r_images :: "image_entry list"
  r_image_count :: nat
  r_table_signal :: table_signal

text \<open>
  The three parts are computed in the source's order, each opening the document again;
  the first one that raises ends the call. Both dicts always have the keys that
  \<open>.get\<close> asks for, so the defaults are never taken.
\<close>

definition extract_bbox_metadata ::
  "pdfplumber \<Rightarrow> string \<Rightarrow> int \<Rightarrow> bbox \<Rightarrow> error + report" where
  "extract_bbox_metadata pdf_open pdf_path page_number bbox =
     (case extract_bbox_text_metadata pdf_open pdf_path page_number bbox of
        Inl e \<Rightarrow> Inl e
      | Inr text_part \<Rightarrow>
     (case extract_bbox_image_metadata pdf_open pdf_path page_number bbox of
        Inl e \<Rightarrow> Inl e
      | Inr image_part \<Rightarrow>
     (case extract_bbox_table_signal pdf_open pdf_path page_number bbox of
        Inl e \<Rightarrow> Inl e
      | Inr table_part \<Rightarrow>
          Inr \<lparr>r_pdf_path = pdf_path,
               r_page_number = page_number,
               r_bbox = tp_bbox text_part,
               r_text = tp_lines text_part,
               r_text_line_count = length (tp_lines text_part),
               r_images = ip_images image_part,
               r_image_count = ip_image_count image_part,
               r_table_signal = table_part\<rparr>)))"

section \<open>Notions of the specification\<close>

text \<open>
  The invariant of a normalised rectangle on a page of width \<open>W\<close> and height \<open>H\<close>:
  \<open>0 \<le> x0 \<le> x1 \<le> W\<close> and \<open>0 \<le> top \<le> bottom \<le> H\<close>.
\<close>

definition rect_invariant :: "bbox \<Rightarrow> real \<Rightarrow> real \<Rightarrow> bool" where
  "rect_invariant r W H =
     (case r of (x0, tp, x1, bt) \<Rightarrow>
        0 \<le> x0 \<and> x0 \<le> x1 \<and> x1 \<le> W \<and> 0 \<le> tp \<and> tp \<le> bt \<and> bt \<le> H)"

text \<open>The axis-aligned intersection of two rectangles, with its width and height.\<close>

definition intersection :: "bbox \<Rightarrow> bbox \<Rightarrow> bbox" where
  "intersection a b =
     (case a of (ax0, atp, ax1, abt) \<Rightarrow>
      case b of (bx0, btp, bx1, bbt) \<Rightarrow>
        (max ax0 bx0, max atp btp, min ax1 bx1, min abt bbt))"

definition rect_width :: "bbox \<Rightarrow> real" where
  "rect_width r = (case r of (x0, tp, x1, bt) \<Rightarrow> x1 - x0)"

definition rect_height :: "bbox \<Rightarrow> real" where
  "rect_height r = (case r of (x0, tp, x1, bt) \<Rightarrow> bt - tp)"

text \<open>
  The value \<open>v\<close> is the most frequent one of \<open>xs\<close> and the first seen among the most
  frequent ones: it occurs in \<open>xs\<close>, no value occurs more often, and every value that
  comes before its first occurrence occurs strictly less often.
\<close>

definition most_frequent_first_seen :: "'a list \<Rightarrow> 'a \<Rightarrow> bool" where
  "most_frequent_first_seen xs v =
     (v \<in> set xs \<and>
      (\<forall>u \<in> set xs. count_list xs u \<le> count_list xs v) \<and>
      (\<forall>u \<in> set (takeWhile (\<lambda>y. y \<noteq> v) xs). count_list xs u < count_list xs v))"

text \<open>The distinct values of a list in the order of their first occurrence.\<close>

definition first_seen_order :: "'a list \<Rightarrow> 'a list" where
  "first_seen_order xs = rev (remdups (rev xs))"

text \<open>
  The groups that \<open>lines_df\<close> aggregates, in the order of the frame: the \<open>i\<close>-th group holds
  the words that go into the \<open>i\<close>-th line, and its first component is their key.
\<close>

definition line_groups :: "word list \<Rightarrow> (real \<times> word list) list" where
  "line_groups wdf = groupby_line_id (sort_values_line_id_x0 wdf)"

section \<open>Sample documents\<close>

text \<open>A page of the given size without images, whose every crop is empty.\<close>

definition blank_page :: "real \<Rightarrow> real \<Rightarrow> page" where
  "blank_page W H =
     \<lparr>width = W, height = H, images = [],
      crop = (\<lambda>b. Inr \<lparr>extract_words = [], lines = [], rects = [], curves = []\<rparr>)\<rparr>"

text \<open>A document of one page, whatever the path.\<close>

definition one_page_pdf :: "page \<Rightarrow> pdfplumber" where
  "one_page_pdf page = (\<lambda>path. Inr [page])"

text \<open>A page whose every crop holds \<open>l\<close> lines, \<open>r\<close> rectangles and \<open>c\<close> curves.\<close>

definition vector_page :: "nat \<Rightarrow> nat \<Rightarrow> nat \<Rightarrow> page" where
  "vector_page l r c =
     \<lparr>width = 100, height = 200, images = [],
      crop = (\<lambda>b. Inr \<lparr>extract_words = [], lines = replicate l b, rects = replicate r b,
                         curves = replicate c b\<rparr>)\<rparr>"

text \<open>A word with the given text, \<open>x0\<close>, \<open>top\<close>, font name and size, 40 wide and 12 high.\<close>

definition mk_word :: "string \<Rightarrow> real \<Rightarrow> real \<Rightarrow> string \<Rightarrow> real \<Rightarrow> word" where
  "mk_word t x tp f s =
     \<lparr>w_text = t, w_x0 = x, w_x1 = x + 40, w_top = tp, w_bottom = tp + 12,
      w_fontname = f, w_size = s\<rparr>"

text \<open>The words of the specification's line grouping scenario.\<close>

definition scenario_words :: "word list" where
  "scenario_words =
     [mk_word ''Hello'' 10 100.2 ''Helvetica'' 12,
      mk_word ''World'' 60 100.6 ''Helvetica'' 12,
      mk_word ''Next'' 10 130.0 ''Helvetica'' 12]"

text \<open>Three words in two bands, not in reading order.\<close>

definition band_words :: "word list" where
  "band_words =
     [mk_word ''World'' 60 100.4 ''Helvetica'' 12,
      mk_word ''Next'' 10 130.0 ''Helvetica'' 12,
      mk_word ''Hello'' 10 100.2 ''Helvetica'' 12]"

text \<open>A group whose font names are tied two to two and whose most frequent size comes second.\<close>

definition tie_group :: "word list" where
  "tie_group =
     [mk_word ''a'' 10 100 ''Bold'' 9,
      mk_word ''b'' 60 100 ''Times'' 12,
      mk_word ''c'' 110 100 ''Times'' 12,
      mk_word ''d'' 160 100 ''Bold'' 10]"

text \<open>A page with two images whose every crop holds the words of \<open>band_words\<close>.\<close>

definition sample_page :: page where
  "sample_page =
     \<lparr>width = 200, height = 300,
      images =
        [\<lparr>img_x0 = 0, img_top = 0, img_x1 = 5, img_bottom = 5, img_width = Some 5,
          img_height = Some 5, img_name = Some ''Im0'', img_srcsize = Some (50, 50)\<rparr>,
         \<lparr>img_x0 = 50, img_top = 95, img_x1 = 60, img_bottom = 140, img_width = None,
          img_height = None, img_name = None, img_srcsize = None\<rparr>],
      crop = (\<lambda>b. Inr \<lparr>extract_words = band_words, lines = [b], rects = [], curves = []\<rparr>)\<rparr>"

section \<open>Properties of clamping\<close>

lemma clamp_range: "0 \<le> (W::real) \<Longrightarrow> 0 \<le> max 0 (min x W) \<and> max 0 (min x W) \<le> W"
  by (simp add: max_def min_def)

lemma clamp_again: "max 0 (min (max 0 (min x W)) W) = max (0::real) (min x W)"
  by (simp add: max_def min_def)

lemma clamp_fix: "0 \<le> x \<Longrightarrow> x \<le> W \<Longrightarrow> max 0 (min x W) = (x::real)"
  by (simp add: max_def min_def)

text \<open>The two conditional swaps put the smaller clamped coordinate first.\<close>

lemma clamp_eq:
  assumes "a = max 0 (min x0 (width page))" and "c = max 0 (min x1 (width page))"
    and "b = max 0 (min tp (height page))" and "d = max 0 (min bt (height page))"
  shows "clamp_bbox_to_page (x0, tp, x1, bt) page = (min a c, min b d, max a c, max b d)"
  unfolding clamp_bbox_to_page_def Let_def prod.case assms[symmetric]
  by (cases "c < a"; cases "d < b") (simp_all add: min_def max_def)

text \<open>
  C5. For every rectangle \<open>b\<close> and every page size (a width and a height that are not
  negative), the clamped rectangle satisfies \<open>0 \<le> x0 \<le> x1 \<le> W\<close> and
  \<open>0 \<le> top \<le> bottom \<le> H\<close>. The function is total: it has no error branch.
\<close>

theorem clamp_containment:
  assumes W: "0 \<le> width page" and H: "0 \<le> height page"
  shows "rect_invariant (clamp_bbox_to_page b page) (width page) (height page)"
proof -
  obtain x0 tp x1 bt where b: "b = (x0, tp, x1, bt)" by (cases b) auto
  define a where "a = max 0 (min x0 (width page))"
  define c where "c = max 0 (min x1 (width page))"
  define e where "e = max 0 (min tp (height page))"
  define d where "d = max 0 (min bt (height page))"
  have a: "0 \<le> a \<and> a \<le> width page" unfolding a_def using W by (rule clamp_range)
  have c: "0 \<le> c \<and> c \<le> width page" unfolding c_def using W by (rule clamp_range)
  have e: "0 \<le> e \<and> e \<le> height page" unfolding e_def using H by (rule clamp_range)
  have d: "0 \<le> d \<and> d \<le> height page" unfolding d_def using H by (rule clamp_range)
  have "clamp_bbox_to_page b page = (min a c, min e d, max a c, max e d)"
    unfolding b using a_def c_def e_def d_def by (rule clamp_eq)
  with a c e d show ?thesis
    by (simp add: rect_invariant_def min_le_iff_disj le_max_iff_disj)
qed

theorem clamp_containment_witness:
  "0 \<le> width (blank_page 100 200) \<and> 0 \<le> height (blank_page 100 200) \<and>
   clamp_bbox_to_page (150, -20, 30, 250) (blank_page 100 200) = (30, 0, 100, 200) \<and>
   rect_invariant (clamp_bbox_to_page (150, -20, 30, 250) (blank_page 100 200)) 100 200"
  using clamp_containment [of "blank_page 100 200" "(150, -20, 30, 250)"]
  by (simp add: blank_page_def clamp_bbox_to_page_def)

text \<open>Clamping twice is clamping once, on every page.\<close>

lemma clamp_twice:
  "clamp_bbox_to_page (clamp_bbox_to_page b page) page = clamp_bbox_to_page b page"
proof -
  obtain x0 tp x1 bt where b: "b = (x0, tp, x1, bt)" by (cases b) auto
  define a where "a = max 0 (min x0 (width page))"
  define c where "c = max 0 (min x1 (width page))"
  define e where "e = max 0 (min tp (height page))"
  define d where "d = max 0 (min bt (height page))"
  have 1: "clamp_bbox_to_page b page = (min a c, min e d, max a c, max e d)"
    unfolding b using a_def c_def e_def d_def by (rule clamp_eq)
  have fa: "max 0 (min a (width page)) = a" unfolding a_def by (rule clamp_again)
  have fc: "max 0 (min c (width page)) = c" unfolding c_def by (rule clamp_again)
  have fe: "max 0 (min e (height page)) = e" unfolding e_def by (rule clamp_again)
  have fd: "max 0 (min d (height page)) = d" unfolding d_def by (rule clamp_again)
  have mn: "max 0 (min (min a c) (width page)) = min a c"
    using fa fc by (simp add: min_def)
  have mx: "max 0 (min (max a c) (width page)) = max a c"
    using fa fc by (simp add: max_def)
  have mn2: "max 0 (min (min e d) (height page)) = min e d"
    using fe fd by (simp add: min_def)
  have mx2: "max 0 (min (max e d) (height page)) = max e d"
    using fe fd by (simp add: max_def)
  have "clamp_bbox_to_page (min a c, min e d, max a c, max e d) page =
        (min (min a c) (max a c), min (min e d) (max e d),
         max (min a c) (max a c), max (min e d) (max e d))"
    using mn[symmetric] mx[symmetric] mn2[symmetric] mx2[symmetric] by (rule clamp_eq)
  also have "\<dots> = (min a c, min e d, max a c, max e d)"
    by (simp add: min_def max_def)
  finally show ?thesis unfolding 1 .
qed

text \<open>
  C6. Clamping is idempotent: for every rectangle \<open>b\<close> and every page of positive width
  and height, clamping the clamped rectangle gives the clamped rectangle.
\<close>

theorem clamp_idempotent:
  assumes "0 < width page" and "0 < height page"
  shows "clamp_bbox_to_page (clamp_bbox_to_page b page) page = clamp_bbox_to_page b page"
  by (rule clamp_twice)

theorem clamp_idempotent_witness:
  "0 < width (blank_page 100 200) \<and> 0 < height (blank_page 100 200) \<and>
   clamp_bbox_to_page (150, -20, 30, 250) (blank_page 100 200) = (30, 0, 100, 200) \<and>
   clamp_bbox_to_page (clamp_bbox_to_page (150, -20, 30, 250) (blank_page 100 200))
     (blank_page 100 200) = (30, 0, 100, 200)"
  using clamp_idempotent [of "blank_page 100 200" "(150, -20, 30, 250)"]
  by (simp add: blank_page_def clamp_bbox_to_page_def)

text \<open>
  C10. Clamping is the identity on a rectangle that is already valid: if
  \<open>0 \<le> x0 \<le> x1 \<le> W\<close> and \<open>0 \<le> top \<le> bottom \<le> H\<close>, the result is the rectangle itself.
\<close>

theorem clamp_identity_on_valid:
  assumes "rect_invariant b (width page) (height page)"
  shows "clamp_bbox_to_page b page = b"
proof -
  obtain x0 tp x1 bt where b: "b = (x0, tp, x1, bt)" by (cases b) auto
  from assms have r: "0 \<le> x0" "x0 \<le> x1" "x1 \<le> width page"
      "0 \<le> tp" "tp \<le> bt" "bt \<le> height page"
    by (simp_all add: b rect_invariant_def)
  have "max 0 (min x0 (width page)) = x0" using r by (intro clamp_fix) simp_all
  moreover have "max 0 (min x1 (width page)) = x1" using r by (intro clamp_fix) simp_all
  moreover have "max 0 (min tp (height page)) = tp" using r by (intro clamp_fix) simp_all
  moreover have "max 0 (min bt (height page)) = bt" using r by (intro clamp_fix) simp_all
  ultimately have "clamp_bbox_to_page b page = (min x0 x1, min tp bt, max x0 x1, max tp bt)"
    unfolding b by (intro clamp_eq) simp_all
  with r show ?thesis by (simp add: b)
qed

theorem clamp_identity_on_valid_witness:
  "rect_invariant (10, 20, 60, 80) (width (blank_page 100 200)) (height (blank_page 100 200)) \<and>
   clamp_bbox_to_page (10, 20, 60, 80) (blank_page 100 200) = (10, 20, 60, 80)"
  using clamp_identity_on_valid [of "(10, 20, 60, 80)" "blank_page 100 200"]
  by (simp add: blank_page_def rect_invariant_def)

section \<open>Properties of the overlap test\<close>

text \<open>
  C7. Two rectangles overlap exactly when their intersection has a strictly positive
  width and a strictly positive height; rectangles that share only an edge, such as
  \<open>(0,0,10,10)\<close> and \<open>(10,0,20,10)\<close>, do not overlap.
\<close>

theorem bbox_overlap_positive_area:
  "bbox_overlap a b = (0 < rect_width (intersection a b) \<and> 0 < rect_height (intersection a b))
   \<and> bbox_overlap (0, 0, 10, 10) (10, 0, 20, 10) = False"
  by (cases a, cases b)
     (simp add: bbox_overlap_def intersection_def rect_width_def rect_height_def Let_def
        less_max_iff_disj)

section \<open>Properties of the counter\<close>

lemma first_seen_order_snoc:
  "first_seen_order (xs @ [x]) = (if x \<in> set xs then first_seen_order xs else first_seen_order xs @ [x])"
  by (simp add: first_seen_order_def)

lemma set_first_seen_order: "set (first_seen_order xs) = set xs"
  by (simp add: first_seen_order_def)

lemma distinct_first_seen_order: "distinct (first_seen_order xs)"
  by (simp add: first_seen_order_def)

lemma Counter_snoc: "Counter (xs @ [x]) = counter_add x (Counter xs)"
  by (simp add: Counter_def)

lemma counter_add_present:
  "x \<in> set ks \<Longrightarrow> distinct ks \<Longrightarrow>
   counter_add x (map (\<lambda>k. (k, f k)) ks) = map (\<lambda>k. (k, if k = x then f k + 1 else f k)) ks"
  by (induction ks) auto

lemma counter_add_absent:
  "x \<notin> set ks \<Longrightarrow> counter_add x (map (\<lambda>k. (k, f k)) ks) = map (\<lambda>k. (k, f k)) ks @ [(x, 1)]"
  by (induction ks) auto

lemma Counter_eq: "Counter xs = map (\<lambda>k. (k, count_list xs k)) (first_seen_order xs)"
proof (induction xs rule: rev_induct)
  case Nil
  show ?case by (simp add: Counter_def first_seen_order_def)
next
  case (snoc x xs)
  show ?case
  proof (cases "x \<in> set xs")
    case True
    then have "x \<in> set (first_seen_order xs)" by (simp add: set_first_seen_order)
    then have "counter_add x (map (\<lambda>k. (k, count_list xs k)) (first_seen_order xs)) =
        map (\<lambda>k. (k, if k = x then count_list xs k + 1 else count_list xs k)) (first_seen_order xs)"
      using distinct_first_seen_order by (rule counter_add_present)
    also have "\<dots> = map (\<lambda>k. (k, count_list (xs @ [x]) k)) (first_seen_order xs)"
      by simp
    finally show ?thesis using True by (simp add: Counter_snoc snoc.IH first_seen_order_snoc)
  next
    case False
    then have "x \<notin> set (first_seen_order xs)" by (simp add: set_first_seen_order)
    then have "counter_add x (map (\<lambda>k. (k, count_list xs k)) (first_seen_order xs)) =
        map (\<lambda>k. (k, count_list xs k)) (first_seen_order xs) @ [(x, 1)]"
      by (rule counter_add_absent)
    also have "\<dots> = map (\<lambda>k. (k, count_list (xs @ [x]) k)) (first_seen_order xs @ [x])"
      using False by (auto simp: set_first_seen_order)
    finally show ?thesis using False by (simp add: Counter_snoc snoc.IH first_seen_order_snoc)
  qed
qed

lemma max_by_count_first:
  "\<exists>pre post. best # kcs = pre @ max_by_count best kcs # post \<and>
     (\<forall>e \<in> set pre. snd e < snd (max_by_count best kcs)) \<and>
     (\<forall>e \<in> set post. snd e \<le> snd (max_by_count best kcs))"
proof (induction kcs arbitrary: best)
  case Nil
  show ?case by (intro exI [of _ "[]"]) simp
next
  case (Cons kc kcs)
  define b' where "b' = (if snd best < snd kc then kc else best)"
  define r where "r = max_by_count b' kcs"
  have r: "max_by_count best (kc # kcs) = r" by (simp add: r_def b'_def)
  from Cons.IH [of b'] obtain pre post where
    split: "b' # kcs = pre @ r # post" and
    pre: "\<forall>e \<in> set pre. snd e < snd r" and
    post: "\<forall>e \<in> set post. snd e \<le> snd r"
    unfolding r_def by blast
  have b'r: "snd b' \<le> snd r"
  proof (cases pre)
    case Nil with split show ?thesis by simp
  next
    case (Cons p ps) with split pre show ?thesis by auto
  qed
  show ?case
  proof (cases "snd best < snd kc")
    case True
    then have "b' = kc" by (simp add: b'_def)
    with split have "best # kc # kcs = (best # pre) @ r # post" by simp
    moreover have "\<forall>e \<in> set (best # pre). snd e < snd r"
      using pre True b'r \<open>b' = kc\<close> by auto
    ultimately show ?thesis unfolding r using post by blast
  next
    case False
    then have b'b: "b' = best" by (simp add: b'_def)
    show ?thesis
    proof (cases pre)
      case Nil
      with split b'b have "r = best" "kcs = post" by simp_all
      then have "best # kc # kcs = [] @ r # (kc # post)" by simp
      moreover have "\<forall>e \<in> set (kc # post). snd e \<le> snd r"
        using post False \<open>r = best\<close> by auto
      ultimately show ?thesis unfolding r by (metis empty_iff list.set(1))
    next
      case (Cons p ps)
      with split b'b have p: "p = best" and kcs: "kcs = ps @ r # post" by simp_all
      have "best # kc # kcs = (best # kc # ps) @ r # post" using kcs by simp
      moreover have "\<forall>e \<in> set (best # kc # ps). snd e < snd r"
        using pre Cons p False by auto
      ultimately show ?thesis unfolding r using post by blast
    qed
  qed
qed

lemma takeWhile_first_seen_order:
  "set (takeWhile (\<lambda>y. y \<noteq> v) (first_seen_order xs)) = set (takeWhile (\<lambda>y. y \<noteq> v) xs)"
proof (induction xs rule: rev_induct)
  case Nil
  show ?case by (simp add: first_seen_order_def)
next
  case (snoc x xs)
  show ?case
  proof (cases "v \<in> set xs")
    case True
    then have "v \<in> set (first_seen_order xs)" by (simp add: set_first_seen_order)
    then have "takeWhile (\<lambda>y. y \<noteq> v) (first_seen_order xs @ [x]) =
               takeWhile (\<lambda>y. y \<noteq> v) (first_seen_order xs)"
      by (intro takeWhile_append1[where x = v]) simp_all
    moreover have "takeWhile (\<lambda>y. y \<noteq> v) (xs @ [x]) = takeWhile (\<lambda>y. y \<noteq> v) xs"
      using True by (intro takeWhile_append1[where x = v]) simp_all
    ultimately show ?thesis using snoc.IH by (simp add: first_seen_order_snoc)
  next
    case False
    then have a: "\<And>y. y \<in> set xs \<Longrightarrow> y \<noteq> v" by auto
    then have b: "\<And>y. y \<in> set (first_seen_order xs) \<Longrightarrow> y \<noteq> v"
      by (simp add: set_first_seen_order)
    have 1: "takeWhile (\<lambda>y. y \<noteq> v) (xs @ [x]) = xs @ takeWhile (\<lambda>y. y \<noteq> v) [x]"
      using a by (intro takeWhile_append2) simp
    have 2: "takeWhile (\<lambda>y. y \<noteq> v) (first_seen_order xs @ [x]) =
             first_seen_order xs @ takeWhile (\<lambda>y. y \<noteq> v) [x]"
      using b by (intro takeWhile_append2) simp
    have 3: "takeWhile (\<lambda>y. y \<noteq> v) (first_seen_order xs) = first_seen_order xs"
      using b by (simp add: takeWhile_eq_all_conv)
    show ?thesis
    proof (cases "x \<in> set xs")
      case True
      have "set (takeWhile (\<lambda>y. y \<noteq> v) (first_seen_order (xs @ [x]))) = set (first_seen_order xs)"
        using True 3 by (simp only: first_seen_order_snoc if_True)
      also have "\<dots> = set xs" by (rule set_first_seen_order)
      also have "\<dots> = set (xs @ takeWhile (\<lambda>y. y \<noteq> v) [x])" using True by auto
      finally show ?thesis by (simp only: 1)
    next
      case False
      have "set (takeWhile (\<lambda>y. y \<noteq> v) (first_seen_order (xs @ [x]))) =
            set (first_seen_order xs @ takeWhile (\<lambda>y. y \<noteq> v) [x])"
        using False 2 by (simp only: first_seen_order_snoc if_False)
      also have "\<dots> = set (xs @ takeWhile (\<lambda>y. y \<noteq> v) [x])"
        by (simp add: set_first_seen_order)
      finally show ?thesis by (simp only: 1)
    qed
  qed
qed

lemma most_common_1_correct:
  assumes "xs \<noteq> []"
  shows "\<exists>v. most_common_1 xs = Inr v \<and> most_frequent_first_seen xs v"
proof -
  define g where "g = (\<lambda>k. (k, count_list xs k))"
  define ks where "ks = first_seen_order xs"
  have C: "Counter xs = map g ks" unfolding g_def ks_def by (rule Counter_eq)
  have "set ks = set xs" unfolding ks_def by (rule set_first_seen_order)
  with assms have "ks \<noteq> []" by auto
  then obtain k ks' where ks: "ks = k # ks'" by (cases ks) auto
  define r where "r = max_by_count (g k) (map g ks')"
  have res: "most_common_1 xs = Inr (fst r)"
    by (simp add: most_common_1_def C ks r_def)
  from max_by_count_first [of "g k" "map g ks'"] obtain pre post where
    split: "map g ks = pre @ r # post" and
    pre: "\<forall>e \<in> set pre. snd e < snd r" and
    post: "\<forall>e \<in> set post. snd e \<le> snd r"
    unfolding r_def ks by auto
  from split obtain pk v qk where
    ksplit: "ks = pk @ v # qk" and pk: "pre = map g pk" and rv: "r = g v" and qk: "post = map g qk"
    by (auto simp: map_eq_append_conv map_eq_Cons_conv)
  have fst_r: "fst r = v" and snd_r: "snd r = count_list xs v" by (simp_all add: rv g_def)
  have dist: "distinct ks" unfolding ks_def by (rule distinct_first_seen_order)
  have v_in: "v \<in> set xs" using ksplit \<open>set ks = set xs\<close> by auto
  have before: "\<forall>u \<in> set pk. count_list xs u < count_list xs v"
    using pre pk snd_r by (auto simp: g_def)
  have after: "\<forall>u \<in> set qk. count_list xs u \<le> count_list xs v"
    using post qk snd_r by (auto simp: g_def)
  have all: "\<forall>u \<in> set xs. count_list xs u \<le> count_list xs v"
  proof
    fix u assume "u \<in> set xs"
    then have "u \<in> set pk \<or> u = v \<or> u \<in> set qk"
      using ksplit \<open>set ks = set xs\<close> by auto
    then show "count_list xs u \<le> count_list xs v"
      using before after by (auto simp: less_imp_le)
  qed
  have "v \<notin> set pk" using dist unfolding ksplit by simp
  then have "takeWhile (\<lambda>y. y \<noteq> v) (pk @ v # qk) = pk @ takeWhile (\<lambda>y. y \<noteq> v) (v # qk)"
    by (intro takeWhile_append2) auto
  then have "takeWhile (\<lambda>y. y \<noteq> v) ks = pk"
    unfolding ksplit by simp
  then have "set (takeWhile (\<lambda>y. y \<noteq> v) xs) = set pk"
    using takeWhile_first_seen_order [of v xs] by (simp add: ks_def)
  with before v_in all have "most_frequent_first_seen xs v"
    by (simp add: most_frequent_first_seen_def)
  with res fst_r show ?thesis by simp
qed

section \<open>Properties of line reconstruction\<close>

text \<open>The key is a nearest integer, and rounding is monotone.\<close>

lemma round_half_even_nearest:
  "\<exists>n::int. round_half_even x = of_int n \<and> (\<forall>m::int. \<bar>x - of_int n\<bar> \<le> \<bar>x - of_int m\<bar>)"
proof -
  define f where "f = \<lfloor>x\<rfloor>"
  have lo: "of_int f \<le> x" and hi: "x < of_int f + 1" unfolding f_def by linarith+
  have far: "\<And>m::int. real_of_int m \<le> of_int f \<or> of_int f + 1 \<le> real_of_int m"
  proof -
    fix m :: int
    have "m \<le> f \<or> f + 1 \<le> m" by linarith
    then show "real_of_int m \<le> of_int f \<or> of_int f + 1 \<le> real_of_int m"
      by (metis of_int_le_iff of_int_add of_int_1)
  qed
  show ?thesis
  proof (cases "x - of_int f < 1 / 2 \<or> (x - of_int f = 1 / 2 \<and> even f)")
    case True
    then have "round_half_even x = of_int f"
      by (auto simp: round_half_even_def Let_def f_def)
    moreover have "\<forall>m::int. \<bar>x - of_int f\<bar> \<le> \<bar>x - of_int m\<bar>"
    proof
      fix m :: int
      show "\<bar>x - of_int f\<bar> \<le> \<bar>x - of_int m\<bar>" using far [of m] lo hi True by linarith
    qed
    ultimately show ?thesis by blast
  next
    case False
    then have "round_half_even x = of_int (f + 1)"
      by (auto simp: round_half_even_def Let_def f_def)
    moreover have "\<forall>m::int. \<bar>x - of_int (f + 1)\<bar> \<le> \<bar>x - of_int m\<bar>"
    proof
      fix m :: int
      show "\<bar>x - of_int (f + 1)\<bar> \<le> \<bar>x - of_int m\<bar>" using far [of m] lo hi False by simp linarith
    qed
    ultimately show ?thesis by blast
  qed
qed

lemma set_sort_values: "set (sort_values_line_id_x0 wdf) = set wdf"
  by (simp add: sort_values_line_id_x0_def)

lemma groupby_iff:
  "g \<in> set (groupby_line_id wdf) \<longleftrightarrow>
   (\<exists>w \<in> set wdf. g = (line_id w, filter (\<lambda>u. line_id u = line_id w) wdf))"
  by (auto simp: groupby_line_id_def)

lemma groupby_keys: "map fst (groupby_line_id wdf) = sort (remdups (map line_id wdf))"
  by (simp add: groupby_line_id_def comp_def)

lemma groupby_group:
  assumes "g \<in> set (groupby_line_id wdf)"
  shows "snd g \<noteq> [] \<and> (\<forall>w \<in> set (snd g). line_id w = fst g)"
proof -
  from assms obtain v where v: "v \<in> set wdf"
      and g: "g = (line_id v, filter (\<lambda>u. line_id u = line_id v) wdf)"
    unfolding groupby_iff by (elim bexE)
  from v have "v \<in> set (snd g)" unfolding g by simp
  then have "snd g \<noteq> []" by auto
  moreover have "\<forall>w \<in> set (snd g). line_id w = fst g" unfolding g by simp
  ultimately show ?thesis by (rule conjI)
qed

lemma round_half_even_bounds:
  "of_int \<lfloor>x\<rfloor> \<le> round_half_even x \<and> round_half_even x \<le> of_int \<lfloor>x\<rfloor> + 1"
  by (simp add: round_half_even_def Let_def)

lemma round_half_even_mono:
  assumes "x \<le> y"
  shows "round_half_even x \<le> round_half_even y"
proof (cases "\<lfloor>x\<rfloor> = \<lfloor>y\<rfloor>")
  case True
  have "x - of_int \<lfloor>y\<rfloor> \<le> y - of_int \<lfloor>y\<rfloor>" using assms by simp
  then show ?thesis unfolding round_half_even_def Let_def True by auto
next
  case False
  with assms have "\<lfloor>x\<rfloor> < \<lfloor>y\<rfloor>" using floor_mono [of x y] by linarith
  then have "\<lfloor>x\<rfloor> + 1 \<le> \<lfloor>y\<rfloor>" by simp
  then have "real_of_int \<lfloor>x\<rfloor> + 1 \<le> of_int \<lfloor>y\<rfloor>" by (metis of_int_le_iff of_int_add of_int_1)
  with round_half_even_bounds [of x] round_half_even_bounds [of y] show ?thesis by linarith
qed

lemma sorted_tops:
  assumes "sorted (map (\<lambda>l. round_half_even (l_top l)) rows)"
    and "distinct (map (\<lambda>l. round_half_even (l_top l)) rows)"
  shows "sorted (map l_top rows)"
  using assms
proof (induction rows)
  case Nil
  show ?case by simp
next
  case (Cons l rows)
  have "\<forall>l' \<in> set rows. l_top l \<le> l_top l'"
  proof
    fix l' assume l': "l' \<in> set rows"
    with Cons.prems have "round_half_even (l_top l) \<le> round_half_even (l_top l')"
        and "round_half_even (l_top l) \<noteq> round_half_even (l_top l')" by auto
    then have "\<not> round_half_even (l_top l') \<le> round_half_even (l_top l)" by simp
    then have "\<not> l_top l' \<le> l_top l" using round_half_even_mono by blast
    then show "l_top l \<le> l_top l'" by simp
  qed
  moreover have "sorted (map l_top rows)" using Cons by simp
  ultimately show ?case by simp
qed

lemma agg_returns:
  assumes "x \<noteq> []"
  shows "\<exists>l. agg x = Inr l"
proof -
  from assms have n1: "map w_fontname x \<noteq> []" and n2: "map w_size x \<noteq> []" by simp_all
  from most_common_1_correct [OF n1] obtain fn where
      fn: "most_common_1 (map w_fontname x) = Inr fn" by (elim exE conjE)
  from most_common_1_correct [OF n2] obtain sz where
      sz: "most_common_1 (map w_size x) = Inr sz" by (elim exE conjE)
  show ?thesis unfolding agg_def fn sz by simp
qed

lemma agg_top:
  assumes "agg x = Inr l"
  shows "x \<noteq> [] \<and> l_top l = Min (set (map w_top x))"
proof -
  have "x \<noteq> []"
  proof
    assume "x = []"
    then have "agg x = Inl IndexError" by (simp add: agg_def most_common_1_def Counter_def)
    with assms show False by simp
  qed
  moreover have "l_top l = Min (set (map w_top x))"
    using assms by (auto simp: agg_def split: sum.splits)
  ultimately show ?thesis by (rule conjI)
qed

lemma agg_key:
  assumes "agg x = Inr l" and "\<forall>w \<in> set x. line_id w = k"
  shows "round_half_even (l_top l) = k"
proof -
  from agg_top [OF assms(1)] have ne: "x \<noteq> []" and t: "l_top l = Min (set (map w_top x))"
    by simp_all
  from ne have "Min (set (map w_top x)) \<in> set (map w_top x)"
    by (intro Min_in) simp_all
  then obtain w where w: "w \<in> set x" and "l_top l = w_top w" unfolding t by auto
  then have "round_half_even (l_top l) = line_id w" by (simp add: line_id_def)
  with assms(2) w show ?thesis by simp
qed

lemma collect_returns:
  assumes "\<forall>g \<in> set gs. snd g \<noteq> []"
  shows "\<exists>rows. collect (map (\<lambda>(k, x). agg x) gs) = Inr rows"
  using assms
proof (induction gs)
  case Nil
  show ?case by simp
next
  case (Cons g gs)
  obtain k x where g: "g = (k, x)" by (cases g)
  from Cons.prems have "x \<noteq> []" by (simp add: g)
  then obtain l where l: "agg x = Inr l" using agg_returns by blast
  from Cons obtain rows where "collect (map (\<lambda>(k, x). agg x) gs) = Inr rows" by auto
  then show ?case by (simp add: g l)
qed

lemma collect_Inr:
  assumes "collect rs = Inr rows"
  shows "rs = map Inr rows"
  using assms
proof (induction rs arbitrary: rows)
  case Nil
  then show ?case by simp
next
  case (Cons r rs)
  from Cons.prems obtain a where a: "r = Inr a" by (cases r) simp_all
  from Cons.prems a obtain rows' where r: "collect rs = Inr rows'"
    by (cases "collect rs") simp_all
  from Cons.prems a r have "rows = a # rows'" by simp
  with a Cons.IH [OF r] show ?case by simp
qed

lemma rows_keys:
  assumes "map Inr rows = map (\<lambda>(k, x). agg x) gs"
    and "\<forall>g \<in> set gs. \<forall>w \<in> set (snd g). line_id w = fst g"
  shows "map (\<lambda>l. round_half_even (l_top l)) rows = map fst gs"
  using assms
proof (induction gs arbitrary: rows)
  case Nil
  then show ?case by simp
next
  case (Cons g gs)
  obtain k x where g: "g = (k, x)" by (cases g)
  from Cons.prems(1) obtain l rows' where rows: "rows = l # rows'" by (cases rows) auto
  from Cons.prems(1) have l: "agg x = Inr l"
      and r: "map Inr rows' = map (\<lambda>(k, x). agg x) gs"
    by (simp_all add: rows g)
  from Cons.prems(2) have "\<forall>w \<in> set x. line_id w = k" by (simp add: g)
  with l have "round_half_even (l_top l) = k" by (rule agg_key)
  moreover have "map (\<lambda>l. round_half_even (l_top l)) rows' = map fst gs"
    using r Cons.prems(2) by (intro Cons.IH) simp_all
  ultimately show ?case by (simp add: rows g)
qed

lemma lines_df_rows:
  "\<exists>rows. lines_df wdf = Inr rows \<and>
     map Inr rows = map (\<lambda>(k, x). agg x) (line_groups wdf) \<and>
     map (\<lambda>l. round_half_even (l_top l)) rows = map fst (line_groups wdf)"
proof -
  define gs where "gs = line_groups wdf"
  have gs: "gs = groupby_line_id (sort_values_line_id_x0 wdf)"
    by (simp add: gs_def line_groups_def)
  have grp: "\<forall>g \<in> set gs. snd g \<noteq> [] \<and> (\<forall>w \<in> set (snd g). line_id w = fst g)"
    unfolding gs using groupby_group by blast
  then have "\<forall>g \<in> set gs. snd g \<noteq> []" by simp
  from collect_returns [OF this] obtain rows0 where
    c: "collect (map (\<lambda>(k, x). agg x) gs) = Inr rows0" by (elim exE)
  from collect_Inr [OF c] have m: "map Inr rows0 = map (\<lambda>(k, x). agg x) gs" by simp
  from grp have "\<forall>g \<in> set gs. \<forall>w \<in> set (snd g). line_id w = fst g" by simp
  with m have k: "map (\<lambda>l. round_half_even (l_top l)) rows0 = map fst gs" by (rule rows_keys)
  have "map fst gs = sort (remdups (map line_id (sort_values_line_id_x0 wdf)))"
    unfolding gs by (rule groupby_keys)
  then have "sorted (map fst gs)" and "distinct (map fst gs)" by simp_all
  then have "sorted (map l_top rows0)" unfolding k [symmetric] by (rule sorted_tops)
  then have "sort_key l_top rows0 = rows0" by (rule sort_key_id_if_sorted)
  then have "lines_df wdf = Inr rows0" using c by (simp add: lines_df_def gs)
  with m k show ?thesis unfolding gs_def by (intro exI [of _ rows0] conjI)
qed

lemma groupby_member:
  assumes "g \<in> set (groupby_line_id wdf)" and "w \<in> set (snd g)"
  shows "w \<in> set wdf \<and> fst g = line_id w \<and> g = (line_id w, filter (\<lambda>u. line_id u = line_id w) wdf)"
proof -
  from assms(1) obtain v where v: "v \<in> set wdf"
      and g: "g = (line_id v, filter (\<lambda>u. line_id u = line_id v) wdf)"
    unfolding groupby_iff by (elim bexE)
  from assms(2) have "w \<in> set wdf" and "line_id w = line_id v" unfolding g by simp_all
  then show ?thesis unfolding g by simp
qed

lemma groupby_own:
  assumes "w \<in> set wdf"
  shows "(line_id w, filter (\<lambda>u. line_id u = line_id w) wdf) \<in> set (groupby_line_id wdf)"
  unfolding groupby_iff using assms by (intro bexI [of _ w]) simp_all

text \<open>
  C2. Line reconstruction returns one line for each group, in the order of the groups:
  the \<open>i\<close>-th line is the aggregate of the \<open>i\<close>-th group, and its \<open>top\<close> rounds to the key of
  that group. The key of a word is its \<open>top\<close> rounded to a nearest integer. Every word of
  the frame goes into exactly one line, whose key is the word's key, and two words go into
  the same line exactly when their tops round to the same integer.
\<close>

theorem line_key_rounded_top:
  assumes w1: "w1 \<in> set wdf" and w2: "w2 \<in> set wdf"
  shows "\<exists>rows. lines_df wdf = Inr rows \<and>
    map Inr rows = map (\<lambda>(k, x). agg x) (line_groups wdf) \<and>
    map (\<lambda>l. round_half_even (l_top l)) rows = map fst (line_groups wdf) \<and>
    line_id w1 = round_half_even (w_top w1) \<and>
    (\<exists>n::int. line_id w1 = of_int n \<and>
       (\<forall>m::int. \<bar>w_top w1 - of_int n\<bar> \<le> \<bar>w_top w1 - of_int m\<bar>)) \<and>
    (\<exists>!i. i < length rows \<and> w1 \<in> set (snd (line_groups wdf ! i))) \<and>
    (\<forall>i < length rows. w1 \<in> set (snd (line_groups wdf ! i)) \<longrightarrow>
       fst (line_groups wdf ! i) = line_id w1 \<and>
       round_half_even (l_top (rows ! i)) = round_half_even (w_top w1)) \<and>
    ((\<exists>i < length rows. w1 \<in> set (snd (line_groups wdf ! i)) \<and>
                         w2 \<in> set (snd (line_groups wdf ! i)))
       = (round_half_even (w_top w1) = round_half_even (w_top w2)))"
proof -
  define sw where "sw = sort_values_line_id_x0 wdf"
  define gs where "gs = line_groups wdf"
  define G where "G = (\<lambda>w. (line_id w, filter (\<lambda>u. line_id u = line_id w) sw))"
  have gs: "gs = groupby_line_id sw" by (simp add: gs_def sw_def line_groups_def)
  from lines_df_rows [of wdf] obtain rows where
      rows: "lines_df wdf = Inr rows"
      and aggs: "map Inr rows = map (\<lambda>(k, x). agg x) gs"
      and keys: "map (\<lambda>l. round_half_even (l_top l)) rows = map fst gs"
    unfolding gs_def by (elim exE conjE)
  have len: "length rows = length gs" using keys by (metis length_map)
  have s1: "w1 \<in> set sw" and s2: "w2 \<in> set sw"
    using w1 w2 by (simp_all add: sw_def set_sort_values)
  have own: "G w1 \<in> set gs" unfolding G_def gs using s1 by (rule groupby_own)
  have in1: "w1 \<in> set (snd (G w1))" using s1 by (simp add: G_def)
  have mem: "\<And>g. g \<in> set gs \<Longrightarrow> w1 \<in> set (snd g) \<Longrightarrow> g = G w1 \<and> fst g = line_id w1"
    unfolding G_def gs using groupby_member by blast
  have "map fst gs = sort (remdups (map line_id sw))" unfolding gs by (rule groupby_keys)
  then have "distinct (map fst gs)" by simp
  then have dist: "distinct gs" by (simp only: distinct_map)
  from own obtain i where i: "i < length gs" and gi: "gs ! i = G w1"
    by (auto simp: in_set_conv_nth)
  have at: "\<And>j. j < length gs \<Longrightarrow> w1 \<in> set (snd (gs ! j)) \<Longrightarrow> j = i \<and> fst (gs ! j) = line_id w1"
  proof -
    fix j assume j: "j < length gs"
    assume wj: "w1 \<in> set (snd (gs ! j))"
    from j have gj: "gs ! j \<in> set gs" by (rule nth_mem)
    from mem [OF gj wj] have e: "gs ! j = G w1" and f: "fst (gs ! j) = line_id w1"
      by (rule conjunct1, rule conjunct2)
    from e gi have "gs ! j = gs ! i" by simp
    with dist j i have "j = i" by (simp add: nth_eq_iff_index_eq)
    with f show "j = i \<and> fst (gs ! j) = line_id w1" by simp
  qed
  have a: "line_id w1 = round_half_even (w_top w1)" by (simp add: line_id_def)
  have b: "\<exists>n::int. line_id w1 = of_int n \<and>
       (\<forall>m::int. \<bar>w_top w1 - of_int n\<bar> \<le> \<bar>w_top w1 - of_int m\<bar>)"
    unfolding a by (rule round_half_even_nearest)
  have c: "\<exists>!i. i < length rows \<and> w1 \<in> set (snd (gs ! i))"
  proof (rule ex1I [of _ i])
    show "i < length rows \<and> w1 \<in> set (snd (gs ! i))" using i in1 gi len by simp
  next
    fix j assume "j < length rows \<and> w1 \<in> set (snd (gs ! j))"
    then show "j = i" using at len by simp
  qed
  have d: "\<forall>j < length rows. w1 \<in> set (snd (gs ! j)) \<longrightarrow>
       fst (gs ! j) = line_id w1 \<and>
       round_half_even (l_top (rows ! j)) = round_half_even (w_top w1)"
  proof (intro allI impI)
    fix j assume j: "j < length rows" and w: "w1 \<in> set (snd (gs ! j))"
    from j len w at have f: "fst (gs ! j) = line_id w1" by simp
    from j have "round_half_even (l_top (rows ! j)) = map (\<lambda>l. round_half_even (l_top l)) rows ! j"
      by simp
    also have "\<dots> = fst (gs ! j)" unfolding keys using j len by simp
    finally show "fst (gs ! j) = line_id w1 \<and>
       round_half_even (l_top (rows ! j)) = round_half_even (w_top w1)"
      using f a by simp
  qed
  have e: "(\<exists>j < length rows. w1 \<in> set (snd (gs ! j)) \<and> w2 \<in> set (snd (gs ! j)))
       = (round_half_even (w_top w1) = round_half_even (w_top w2))"
  proof
    assume "\<exists>j < length rows. w1 \<in> set (snd (gs ! j)) \<and> w2 \<in> set (snd (gs ! j))"
    then obtain j where j: "j < length rows" "w1 \<in> set (snd (gs ! j))" "w2 \<in> set (snd (gs ! j))"
      by (elim exE conjE)
    from j(1) len have "gs ! j \<in> set gs" by simp
    from mem [OF this j(2)] have "gs ! j = G w1" by simp
    with j(3) have "line_id w2 = line_id w1" by (simp add: G_def)
    then show "round_half_even (w_top w1) = round_half_even (w_top w2)" by (simp add: line_id_def)
  next
    assume "round_half_even (w_top w1) = round_half_even (w_top w2)"
    then have "line_id w2 = line_id w1" by (simp add: line_id_def)
    then have "w2 \<in> set (snd (G w1))" using s2 by (simp add: G_def)
    with in1 gi i len
    show "\<exists>j < length rows. w1 \<in> set (snd (gs ! j)) \<and> w2 \<in> set (snd (gs ! j))"
      by (intro exI [of _ i]) simp
  qed
  from rows aggs keys a b c d e show ?thesis
    unfolding gs_def by (intro exI [of _ rows] conjI)
qed

lemma band_lines: "lines_df band_words =
     Inr [\<lparr>l_text = ''Hello World'', l_fontname = ''Helvetica'', l_size = 12,
           l_x0 = 10, l_top = 100.2, l_x1 = 100, l_bottom = 112.4\<rparr>,
          \<lparr>l_text = ''Next'', l_fontname = ''Helvetica'', l_size = 12,
           l_x0 = 10, l_top = 130, l_x1 = 50, l_bottom = 142\<rparr>]"
  by (simp add: band_words_def mk_word_def lines_df_def groupby_line_id_def
      sort_values_line_id_x0_def agg_def most_common_1_def Counter_def line_id_def
      round_half_even_def Let_def)

theorem line_key_rounded_top_witness:
  "mk_word ''Hello'' 10 100.2 ''Helvetica'' 12 \<in> set band_words \<and>
   mk_word ''World'' 60 100.4 ''Helvetica'' 12 \<in> set band_words \<and>
   mk_word ''Next'' 10 130.0 ''Helvetica'' 12 \<in> set band_words \<and>
   line_id (mk_word ''Hello'' 10 100.2 ''Helvetica'' 12) = 100 \<and>
   line_id (mk_word ''World'' 60 100.4 ''Helvetica'' 12) = 100 \<and>
   line_id (mk_word ''Next'' 10 130.0 ''Helvetica'' 12) = 130 \<and>
   (\<exists>rows. lines_df band_words = Inr rows \<and>
      map l_text rows = [''Hello World'', ''Next''] \<and>
      (\<exists>i < length rows.
         mk_word ''Hello'' 10 100.2 ''Helvetica'' 12 \<in> set (snd (line_groups band_words ! i)) \<and>
         mk_word ''World'' 60 100.4 ''Helvetica'' 12 \<in> set (snd (line_groups band_words ! i))) \<and>
      \<not> (\<exists>i < length rows.
         mk_word ''Hello'' 10 100.2 ''Helvetica'' 12 \<in> set (snd (line_groups band_words ! i)) \<and>
         mk_word ''Next'' 10 130.0 ''Helvetica'' 12 \<in> set (snd (line_groups band_words ! i))))"
proof -
  define hello where "hello = mk_word ''Hello'' 10 100.2 ''Helvetica'' 12"
  define world where "world = mk_word ''World'' 60 100.4 ''Helvetica'' 12"
  define nxt where "nxt = mk_word ''Next'' 10 130.0 ''Helvetica'' 12"
  have h: "hello \<in> set band_words" and w: "world \<in> set band_words"
    and n: "nxt \<in> set band_words"
    by (simp_all add: band_words_def hello_def world_def nxt_def)
  have ids: "line_id hello = 100" "line_id world = 100" "line_id nxt = 130"
    by (simp_all add: hello_def world_def nxt_def mk_word_def line_id_def
        round_half_even_def Let_def)
  have 3: "round_half_even (w_top hello) = round_half_even (w_top world)"
    using ids by (simp add: line_id_def)
  have 4: "round_half_even (w_top hello) \<noteq> round_half_even (w_top nxt)"
    using ids by (simp add: line_id_def)
  from line_key_rounded_top [OF h w] obtain rows where
      r: "lines_df band_words = Inr rows"
      and 1: "(\<exists>i < length rows. hello \<in> set (snd (line_groups band_words ! i)) \<and>
                 world \<in> set (snd (line_groups band_words ! i)))
           = (round_half_even (w_top hello) = round_half_even (w_top world))"
    by (elim exE conjE)
  from line_key_rounded_top [OF h n] obtain rows' where
      r': "lines_df band_words = Inr rows'"
      and 2: "(\<exists>i < length rows'. hello \<in> set (snd (line_groups band_words ! i)) \<and>
                 nxt \<in> set (snd (line_groups band_words ! i)))
           = (round_half_even (w_top hello) = round_half_even (w_top nxt))"
    by (elim exE conjE)
  from r r' have same: "rows' = rows" by simp
  from r have t: "map l_text rows = [''Hello World'', ''Next'']"
    by (auto simp: band_lines)
  from 1 3 have 5: "\<exists>i < length rows. hello \<in> set (snd (line_groups band_words ! i)) \<and>
                 world \<in> set (snd (line_groups band_words ! i))" by (simp only: simp_thms)
  from 2 4 have 6: "\<not> (\<exists>i < length rows. hello \<in> set (snd (line_groups band_words ! i)) \<and>
                 nxt \<in> set (snd (line_groups band_words ! i)))"
    unfolding same by (simp only: simp_thms)
  from r t 5 6 have "\<exists>rows. lines_df band_words = Inr rows \<and>
      map l_text rows = [''Hello World'', ''Next''] \<and>
      (\<exists>i < length rows. hello \<in> set (snd (line_groups band_words ! i)) \<and>
                 world \<in> set (snd (line_groups band_words ! i))) \<and>
      \<not> (\<exists>i < length rows. hello \<in> set (snd (line_groups band_words ! i)) \<and>
                 nxt \<in> set (snd (line_groups band_words ! i)))"
    by (intro exI [of _ rows] conjI)
  with h w n ids show ?thesis
    unfolding hello_def world_def nxt_def by (intro conjI)
qed

text \<open>
  C3. For a non-empty group the aggregation returns a line whose font name and size are
  each the most frequent value among the group's words, the first one seen when several
  values are tied for the highest frequency.
\<close>

theorem agg_most_frequent_first_seen:
  assumes "x \<noteq> []"
  shows "\<exists>l. agg x = Inr l \<and>
           most_frequent_first_seen (map w_fontname x) (l_fontname l) \<and>
           most_frequent_first_seen (map w_size x) (l_size l)"
proof -
  from assms have n1: "map w_fontname x \<noteq> []" by simp
  from most_common_1_correct [OF n1] obtain fn where
      fn: "most_common_1 (map w_fontname x) = Inr fn" and
      fn_ok: "most_frequent_first_seen (map w_fontname x) fn"
    by (elim exE conjE)
  from assms have n2: "map w_size x \<noteq> []" by simp
  from most_common_1_correct [OF n2] obtain sz where
      sz: "most_common_1 (map w_size x) = Inr sz" and
      sz_ok: "most_frequent_first_seen (map w_size x) sz"
    by (elim exE conjE)
  define l where "l = \<lparr>l_text = join '' '' (map w_text x), l_fontname = fn, l_size = sz,
       l_x0 = Min (set (map w_x0 x)), l_top = Min (set (map w_top x)),
       l_x1 = Max (set (map w_x1 x)), l_bottom = Max (set (map w_bottom x))\<rparr>"
  have "agg x = Inr l" unfolding agg_def fn sz l_def by (simp only: sum.case)
  moreover have "l_fontname l = fn" "l_size l = sz" by (simp_all add: l_def)
  ultimately show ?thesis using fn_ok sz_ok by (intro exI [of _ l]) (simp only: simp_thms)
qed

theorem agg_most_frequent_first_seen_witness:
  "tie_group \<noteq> [] \<and>
   map w_fontname tie_group = [''Bold'', ''Times'', ''Times'', ''Bold''] \<and>
   map w_size tie_group = [9, 12, 12, 10] \<and>
   (\<exists>l. agg tie_group = Inr l \<and> l_fontname l = ''Bold'' \<and> l_size l = 12 \<and>
      most_frequent_first_seen (map w_fontname tie_group) (l_fontname l) \<and>
      most_frequent_first_seen (map w_size tie_group) (l_size l))"
proof -
  have ne: "tie_group \<noteq> []" by (simp add: tie_group_def)
  have ev: "map_sum id l_fontname (agg tie_group) = Inr ''Bold''"
      "map_sum id l_size (agg tie_group) = Inr 12"
    by (simp_all add: tie_group_def mk_word_def agg_def most_common_1_def Counter_def)
  from agg_most_frequent_first_seen [OF ne] obtain l where l: "agg tie_group = Inr l"
      "most_frequent_first_seen (map w_fontname tie_group) (l_fontname l)"
      "most_frequent_first_seen (map w_size tie_group) (l_size l)" by (elim exE conjE)
  from ev l(1) have v: "l_fontname l = ''Bold''" "l_size l = 12" by simp_all
  have m: "map w_fontname tie_group = [''Bold'', ''Times'', ''Times'', ''Bold'']"
      "map w_size tie_group = [9, 12, 12, 10]"
    by (simp_all add: tie_group_def mk_word_def)
  from l v have "\<exists>l. agg tie_group = Inr l \<and> l_fontname l = ''Bold'' \<and> l_size l = 12 \<and>
      most_frequent_first_seen (map w_fontname tie_group) (l_fontname l) \<and>
      most_frequent_first_seen (map w_size tie_group) (l_size l)"
    by (intro exI [of _ l]) (simp only: simp_thms)
  with ne m show ?thesis by (simp only: simp_thms)
qed

text \<open>
  C1 (as amended). For the words \<open>Hello\<close> (top 100.2, x0 10), \<open>World\<close> (top 100.6, x0 60)
  and \<open>Next\<close> (top 130.0, x0 10), whatever their other fields, line reconstruction gives
  exactly three lines, with the texts \<open>Hello\<close>, \<open>World\<close> and \<open>Next\<close>: 100.2 rounds to 100
  and 100.6 to 101.
\<close>

theorem scenario_three_lines:
  "\<exists>rows. lines_df
      [\<lparr>w_text = ''Hello'', w_x0 = 10, w_x1 = a1, w_top = 100.2, w_bottom = b1,
        w_fontname = f1, w_size = s1\<rparr>,
       \<lparr>w_text = ''World'', w_x0 = 60, w_x1 = a2, w_top = 100.6, w_bottom = b2,
        w_fontname = f2, w_size = s2\<rparr>,
       \<lparr>w_text = ''Next'', w_x0 = 10, w_x1 = a3, w_top = 130.0, w_bottom = b3,
        w_fontname = f3, w_size = s3\<rparr>] = Inr rows \<and>
     length rows = 3 \<and>
     map l_text rows = [''Hello'', ''World'', ''Next''] \<and>
     map l_top rows = [100.2, 100.6, 130.0]"
  by (simp add: lines_df_def groupby_line_id_def
      sort_values_line_id_x0_def agg_def most_common_1_def Counter_def line_id_def
      round_half_even_def Let_def)

text \<open>
  C1 as stated fails: on the scenario's words the result has three lines, and its texts
  are not \<open>Hello World\<close>, \<open>Next\<close>.
\<close>

theorem scenario_two_lines_counterexample:
  "lines_df scenario_words =
     Inr [\<lparr>l_text = ''Hello'', l_fontname = ''Helvetica'', l_size = 12,
           l_x0 = 10, l_top = 100.2, l_x1 = 50, l_bottom = 112.2\<rparr>,
          \<lparr>l_text = ''World'', l_fontname = ''Helvetica'', l_size = 12,
           l_x0 = 60, l_top = 100.6, l_x1 = 100, l_bottom = 112.6\<rparr>,
          \<lparr>l_text = ''Next'', l_fontname = ''Helvetica'', l_size = 12,
           l_x0 = 10, l_top = 130, l_x1 = 50, l_bottom = 142\<rparr>] \<and>
   map_sum id (map l_text) (lines_df scenario_words) \<noteq> Inr [''Hello World'', ''Next'']"
  by (simp add: scenario_words_def mk_word_def lines_df_def groupby_line_id_def
      sort_values_line_id_x0_def agg_def most_common_1_def Counter_def line_id_def
      round_half_even_def Let_def)

section \<open>Properties of the table signal\<close>

text \<open>
  C4. Whenever the document opens, the page exists and the crop succeeds, the table
  signal is returned with the three counts of the cropped region, and \<open>likely_table\<close> is
  true exactly when the number of lines plus the number of rectangles is greater
  than 15; the number of curves does not enter. With 10 lines and 6 rectangles it is
  true, with 10 lines and 5 rectangles it is false.
\<close>

theorem table_signal_threshold:
  assumes "pdf_open pdf_path = Inr pages"
    and "getitem pages page_number = Inr page"
    and "crop page (clamp_bbox_to_page bbox page) = Inr cropped"
  shows "\<exists>ts. extract_bbox_table_signal pdf_open pdf_path page_number bbox = Inr ts \<and>
           lines_count ts = length (lines cropped) \<and>
           rects_count ts = length (rects cropped) \<and>
           curves_count ts = length (curves cropped) \<and>
           likely_table ts = (15 < length (lines cropped) + length (rects cropped))"
  using assms by (simp add: extract_bbox_table_signal_def Let_def)

theorem table_signal_threshold_witness:
  "(\<exists>ts. extract_bbox_table_signal (one_page_pdf (vector_page 10 6 0)) ''doc.pdf'' 0 (0, 0, 50, 50) = Inr ts \<and>
      lines_count ts = 10 \<and> rects_count ts = 6 \<and> curves_count ts = 0 \<and> likely_table ts = True) \<and>
   (\<exists>ts. extract_bbox_table_signal (one_page_pdf (vector_page 10 5 40)) ''doc.pdf'' 0 (0, 0, 50, 50) = Inr ts \<and>
      lines_count ts = 10 \<and> rects_count ts = 5 \<and> curves_count ts = 40 \<and> likely_table ts = False)"
proof -
  have o1: "one_page_pdf (vector_page 10 6 0) ''doc.pdf'' = Inr [vector_page 10 6 0]"
    and o2: "one_page_pdf (vector_page 10 5 40) ''doc.pdf'' = Inr [vector_page 10 5 40]"
    by (simp_all add: one_page_pdf_def)
  have g1: "getitem [vector_page 10 6 0] 0 = Inr (vector_page 10 6 0)"
    and g2: "getitem [vector_page 10 5 40] 0 = Inr (vector_page 10 5 40)"
    by (simp_all add: getitem_def)
  have c1: "crop (vector_page 10 6 0) (clamp_bbox_to_page (0, 0, 50, 50) (vector_page 10 6 0)) =
      Inr \<lparr>extract_words = [], lines = replicate 10 (0, 0, 50, 50),
           rects = replicate 6 (0, 0, 50, 50), curves = replicate 0 (0, 0, 50, 50)\<rparr>"
    and c2: "crop (vector_page 10 5 40) (clamp_bbox_to_page (0, 0, 50, 50) (vector_page 10 5 40)) =
      Inr \<lparr>extract_words = [], lines = replicate 10 (0, 0, 50, 50),
           rects = replicate 5 (0, 0, 50, 50), curves = replicate 40 (0, 0, 50, 50)\<rparr>"
    by (simp_all add: vector_page_def clamp_bbox_to_page_def)
  from table_signal_threshold [of "one_page_pdf (vector_page 10 6 0)" "''doc.pdf''", OF o1 g1 c1]
    table_signal_threshold [of "one_page_pdf (vector_page 10 5 40)" "''doc.pdf''", OF o2 g2 c2]
  show ?thesis by simp
qed

section \<open>Properties of the report\<close>

text \<open>
  C8. In every report that \<open>extract_bbox_metadata\<close> returns, \<open>text_line_count\<close> is the
  length of \<open>text\<close> and \<open>image_count\<close> is the length of \<open>images\<close>.
\<close>

theorem report_counts:
  assumes "extract_bbox_metadata pdf_open pdf_path page_number bbox = Inr r"
  shows "r_text_line_count r = length (r_text r) \<and> r_image_count r = length (r_images r)"
  using assms
  by (auto simp: extract_bbox_metadata_def extract_bbox_image_metadata_def Let_def
      split: sum.splits)

lemma sample_report:
  "extract_bbox_metadata (one_page_pdf sample_page) ''doc.pdf'' 0 (0, 90, 250, 150) =
     Inr \<lparr>r_pdf_path = ''doc.pdf'', r_page_number = 0, r_bbox = (0, 90, 200, 150),
          r_text =
            [\<lparr>l_text = ''Hello World'', l_fontname = ''Helvetica'', l_size = 12,
              l_x0 = 10, l_top = 100.2, l_x1 = 100, l_bottom = 112.4\<rparr>,
             \<lparr>l_text = ''Next'', l_fontname = ''Helvetica'', l_size = 12,
              l_x0 = 10, l_top = 130, l_x1 = 50, l_bottom = 142\<rparr>],
          r_text_line_count = 2,
          r_images =
            [\<lparr>image_id = 1, image_bbox = (50, 95, 60, 140), ie_width = None,
              ie_height = None, ie_name = None, ie_srcsize = None\<rparr>],
          r_image_count = 1,
          r_table_signal =
            \<lparr>ts_page_number = 0, ts_bbox = (0, 90, 200, 150), lines_count = 1,
             rects_count = 0, curves_count = 0, likely_table = False\<rparr>\<rparr>"
proof -
  have w: "band_words \<noteq> []"
    by (simp add: band_words_def)
  have o: "one_page_pdf sample_page ''doc.pdf'' = Inr [sample_page]"
    by (simp add: one_page_pdf_def)
  have g: "getitem [sample_page] 0 = Inr sample_page"
    by (simp add: getitem_def)
  have cl: "clamp_bbox_to_page (0, 90, 250, 150) sample_page = (0, 90, 200, 150)"
    by (simp add: clamp_bbox_to_page_def sample_page_def)
  have cr: "crop sample_page (0, 90, 200, 150) =
      Inr \<lparr>extract_words = band_words, lines = [(0, 90, 200, 150)], rects = [], curves = []\<rparr>"
    by (simp add: sample_page_def)
  have im: "image_loop (0, 90, 200, 150) (enumerate 0 (images sample_page)) [] =
            [\<lparr>image_id = 1, image_bbox = (50, 95, 60, 140), ie_width = None,
              ie_height = None, ie_name = None, ie_srcsize = None\<rparr>]"
    by (simp add: sample_page_def bbox_overlap_def)
  have t: "extract_bbox_text_metadata (one_page_pdf sample_page) ''doc.pdf'' 0 (0, 90, 250, 150) =
    Inr \<lparr>tp_page_number = 0, tp_bbox = (0, 90, 200, 150), tp_lines =
            [\<lparr>l_text = ''Hello World'', l_fontname = ''Helvetica'', l_size = 12,
              l_x0 = 10, l_top = 100.2, l_x1 = 100, l_bottom = 112.4\<rparr>,
             \<lparr>l_text = ''Next'', l_fontname = ''Helvetica'', l_size = 12,
              l_x0 = 10, l_top = 130, l_x1 = 50, l_bottom = 142\<rparr>], tp_message = None\<rparr>"
    by (simp add: extract_bbox_text_metadata_def o g cl cr w band_lines)
  have i: "extract_bbox_image_metadata (one_page_pdf sample_page) ''doc.pdf'' 0 (0, 90, 250, 150) =
    Inr \<lparr>ip_page_number = 0, ip_bbox = (0, 90, 200, 150), ip_image_count = 1, ip_images =
            [\<lparr>image_id = 1, image_bbox = (50, 95, 60, 140), ie_width = None,
              ie_height = None, ie_name = None, ie_srcsize = None\<rparr>]\<rparr>"
    by (simp add: extract_bbox_image_metadata_def o g cl im)
  have s: "extract_bbox_table_signal (one_page_pdf sample_page) ''doc.pdf'' 0 (0, 90, 250, 150) =
    Inr \<lparr>ts_page_number = 0, ts_bbox = (0, 90, 200, 150), lines_count = 1,
             rects_count = 0, curves_count = 0, likely_table = False\<rparr>"
    by (simp add: extract_bbox_table_signal_def o g cl cr)
  show ?thesis unfolding extract_bbox_metadata_def t i s by simp
qed

theorem report_counts_witness:
  "\<exists>r. extract_bbox_metadata (one_page_pdf sample_page) ''doc.pdf'' 0 (0, 90, 250, 150) = Inr r \<and>
     map l_text (r_text r) = [''Hello World'', ''Next''] \<and>
     r_text_line_count r = 2 \<and> length (r_text r) = 2 \<and>
     map image_id (r_images r) = [1] \<and>
     r_image_count r = 1 \<and> length (r_images r) = 1"
  using report_counts [OF sample_report] by (simp add: sample_report)

text \<open>
  C9. When the document opens, the page exists and the crop of the clamped box succeeds
  with no words, the call does not fail: it returns a report whose \<open>text\<close> is empty and
  whose \<open>text_line_count\<close> is 0.
\<close>

theorem empty_region_report:
  assumes "pdf_open pdf_path = Inr pages"
    and "getitem pages page_number = Inr page"
    and "crop page (clamp_bbox_to_page bbox page) = Inr cropped"
    and "extract_words cropped = []"
  shows "\<exists>r. extract_bbox_metadata pdf_open pdf_path page_number bbox = Inr r \<and>
           r_text r = [] \<and> r_text_line_count r = 0"
  using assms
  by (simp add: extract_bbox_metadata_def extract_bbox_text_metadata_def
      extract_bbox_image_metadata_def extract_bbox_table_signal_def Let_def)

theorem empty_region_report_witness:
  "one_page_pdf (blank_page 100 200) ''doc.pdf'' = Inr [blank_page 100 200] \<and>
   getitem [blank_page 100 200] 0 = Inr (blank_page 100 200) \<and>
   crop (blank_page 100 200) (clamp_bbox_to_page (10, 10, 50, 50) (blank_page 100 200)) =
     Inr \<lparr>extract_words = [], lines = [], rects = [], curves = []\<rparr> \<and>
   (\<exists>r. extract_bbox_metadata (one_page_pdf (blank_page 100 200)) ''doc.pdf'' 0 (10, 10, 50, 50) = Inr r \<and>
      r_text r = [] \<and> r_text_line_count r = 0)"
proof -
  have o: "one_page_pdf (blank_page 100 200) ''doc.pdf'' = Inr [blank_page 100 200]"
    by (simp add: one_page_pdf_def)
  have g: "getitem [blank_page 100 200] 0 = Inr (blank_page 100 200)"
    by (simp add: getitem_def)
  have c: "crop (blank_page 100 200) (clamp_bbox_to_page (10, 10, 50, 50) (blank_page 100 200)) =
     Inr \<lparr>extract_words = [], lines = [], rects = [], curves = []\<rparr>"
    by (simp add: blank_page_def)
  have e: "extract_words \<lparr>extract_words = [], lines = [], rects = [], curves = []\<rparr> = []"
    by simp
  from empty_region_report [of "one_page_pdf (blank_page 100 200)" "''doc.pdf''", OF o g c e] o g c
  show ?thesis by (intro conjI)
qed

end
